theory Spec2Isabelle
  imports Main "HOL-Library.Char_ord" "HOL-Library.List_Lexorder"
begin

section \<open>The string operations of the source\<close>

text \<open>
  A \<^verbatim>\<open>std::string\<close> is a list of bytes, \<^typ>\<open>string\<close>;
  \<^verbatim>\<open>std::string::size_type\<close> is an unsigned 64-bit integer. Positions are
  natural numbers; the one subtraction of the source, \<^verbatim>\<open>word.size() - 1\<close>, is
  written with its wrap-around. The additions \<^verbatim>\<open>i + 1\<close> and \<^verbatim>\<open>i + 2\<close> stay
  below the wrap for every position a loop reaches.

  Two things go wrong in these operations: \<^verbatim>\<open>substr\<close> throws
  \<^verbatim>\<open>std::out_of_range\<close> when its position lies beyond the size, and
  \<^verbatim>\<open>operator[]\<close> beyond the size is undefined behaviour. Both are values of
  the model.
\<close>

datatype error = OutOfRange | UndefinedBehaviour

definition size_sub :: "nat \<Rightarrow> nat \<Rightarrow> nat" where
  \<comment> \<open>\<^verbatim>\<open>a - b\<close> on \<^verbatim>\<open>size_type\<close>: modulo \<open>2 ^ 64\<close>.\<close>
  "size_sub a b = (if b \<le> a then a - b else a + 2 ^ 64 - b)"

definition substr :: "string \<Rightarrow> nat \<Rightarrow> nat \<Rightarrow> error + string" where
  \<comment> \<open>\<^verbatim>\<open>word.substr(pos, n)\<close>\<close>
  "substr word pos n =
     (if length word < pos then Inl OutOfRange else Inr (take n (drop pos word)))"

definition substr_from :: "string \<Rightarrow> nat \<Rightarrow> error + string" where
  \<comment> \<open>\<^verbatim>\<open>word.substr(pos)\<close>, to the end of the string\<close>
  "substr_from word pos =
     (if length word < pos then Inl OutOfRange else Inr (drop pos word))"

definition at :: "string \<Rightarrow> nat \<Rightarrow> error + char" where
  \<comment> \<open>\<^verbatim>\<open>word[pos]\<close>: the terminating zero at \<^verbatim>\<open>pos == size()\<close>\<close>
  "at word pos =
     (if pos < length word then Inr (word ! pos)
      else if pos = length word then Inr (CHR 0x00)
      else Inl UndefinedBehaviour)"

section \<open>Loops\<close>

text \<open>
  \<^verbatim>\<open>for (i = first; i < bound; i++) body\<close>, where the body may throw and
  otherwise updates the state it is given. The loop stops at the first error.
\<close>

function for_loop :: "nat \<Rightarrow> nat \<Rightarrow> (nat \<Rightarrow> 'a \<Rightarrow> error + 'a) \<Rightarrow> 'a \<Rightarrow> error + 'a" where
  "for_loop i bound body s =
     (if i < bound
      then (case body i s of Inl e \<Rightarrow> Inl e | Inr s' \<Rightarrow> for_loop (i + 1) bound body s')
      else Inr s)"
  by pat_completeness auto
termination
  by (relation "measure (\<lambda>(i, bound, body, s). bound - i)") auto

declare for_loop.simps [simp del]

section \<open>The edit generator\<close>

text \<open>
  Each loop body builds one candidate and appends it to \<^verbatim>\<open>results\<close>. The operands
  of a concatenation are evaluated from left to right here. C++ leaves their order open,
  but the order decides only which of two failing operands is reported, never whether the
  body fails.
\<close>

definition deletion :: "string \<Rightarrow> nat \<Rightarrow> string list \<Rightarrow> error + string list" where
  \<comment> \<open>\<^verbatim>\<open>results.push_back(word.substr(0, i) + word.substr(i + 1))\<close>\<close>
  "deletion word i results =
     (case substr word 0 i of Inl e \<Rightarrow> Inl e | Inr a \<Rightarrow>
     (case substr_from word (i + 1) of Inl e \<Rightarrow> Inl e | Inr b \<Rightarrow>
      Inr (results @ [a @ b])))"

definition transposition :: "string \<Rightarrow> nat \<Rightarrow> string list \<Rightarrow> error + string list" where
  \<comment> \<open>\<^verbatim>\<open>results.push_back(word.substr(0, i) + word[i + 1] + word[i] + word.substr(i + 2))\<close>\<close>
  "transposition word i results =
     (case substr word 0 i of Inl e \<Rightarrow> Inl e | Inr a \<Rightarrow>
     (case at word (i + 1) of Inl e \<Rightarrow> Inl e | Inr x \<Rightarrow>
     (case at word i of Inl e \<Rightarrow> Inl e | Inr y \<Rightarrow>
     (case substr_from word (i + 2) of Inl e \<Rightarrow> Inl e | Inr b \<Rightarrow>
      Inr (results @ [a @ x # y # b])))))"

definition alteration :: "string \<Rightarrow> char \<Rightarrow> nat \<Rightarrow> string list \<Rightarrow> error + string list" where
  \<comment> \<open>\<^verbatim>\<open>results.push_back(word.substr(0, i) + j + word.substr(i + 1))\<close>\<close>
  "alteration word j i results =
     (case substr word 0 i of Inl e \<Rightarrow> Inl e | Inr a \<Rightarrow>
     (case substr_from word (i + 1) of Inl e \<Rightarrow> Inl e | Inr b \<Rightarrow>
      Inr (results @ [a @ j # b])))"

definition insertion :: "string \<Rightarrow> char \<Rightarrow> nat \<Rightarrow> string list \<Rightarrow> error + string list" where
  \<comment> \<open>\<^verbatim>\<open>results.push_back(word.substr(0, i) + j + word.substr(i))\<close>\<close>
  "insertion word j i results =
     (case substr word 0 i of Inl e \<Rightarrow> Inl e | Inr a \<Rightarrow>
     (case substr_from word i of Inl e \<Rightarrow> Inl e | Inr b \<Rightarrow>
      Inr (results @ [a @ j # b])))"

definition letter :: "string \<Rightarrow> nat \<Rightarrow> string list \<Rightarrow> error + string list" where
  \<comment> \<open>the body of \<^verbatim>\<open>for (char j = 'a'; j <= 'z'; ++j)\<close>, \<open>j\<close> as its code\<close>
  "letter word j results =
     (case for_loop 0 (length word) (alteration word (char_of j)) results of
        Inl e \<Rightarrow> Inl e
      | Inr results' \<Rightarrow> for_loop 0 (length word + 1) (insertion word (char_of j)) results')"

definition edits :: "string \<Rightarrow> string list \<Rightarrow> error + string list" where
  \<comment> \<open>\<^verbatim>\<open>void edits(const std::string& word, std::vector<std::string>& results)\<close>\<close>
  "edits word results =
     (case for_loop 0 (length word) (deletion word) results of
        Inl e \<Rightarrow> Inl e
      | Inr r1 \<Rightarrow>
         (case for_loop 0 (size_sub (length word) 1) (transposition word) r1 of
            Inl e \<Rightarrow> Inl e
          | Inr r2 \<Rightarrow> for_loop (of_char CHR ''a'') (of_char CHR ''z'' + 1) (letter word) r2))"

section \<open>The dictionary and the candidate map\<close>

text \<open>
  A \<^verbatim>\<open>std::map<std::string, int>\<close> is the list of its entries in iteration
  order, that is by ascending key; keys compare as \<^verbatim>\<open>std::string\<close>s do, byte
  by byte with a proper prefix first, which is the order of \<^typ>\<open>string\<close> here.
  The weights are only stored and compared, so they are integers.
\<close>

type_synonym string_map = "(string \<times> int) list"

definition map_inv :: "string_map \<Rightarrow> bool" where
  \<comment> \<open>the entries of a \<^verbatim>\<open>std::map\<close>: strictly ascending keys\<close>
  "map_inv m = sorted_wrt (<) (map fst m)"

fun map_find :: "string_map \<Rightarrow> string \<Rightarrow> (string \<times> int) option" where
  \<comment> \<open>\<^verbatim>\<open>m.find(k)\<close>: the entry, or \<open>None\<close> for \<^verbatim>\<open>m.end()\<close>\<close>
  "map_find [] k = None"
| "map_find (p # m) k = (if fst p = k then Some p else map_find m k)"

fun map_assign :: "string \<Rightarrow> int \<Rightarrow> string_map \<Rightarrow> string_map" where
  \<comment> \<open>\<^verbatim>\<open>m[k] = v\<close>: the entry is overwritten, or inserted at its place\<close>
  "map_assign k v [] = [(k, v)]"
| "map_assign k v (p # m) =
     (if k < fst p then (k, v) # p # m
      else if k = fst p then (k, v) # m
      else p # map_assign k v m)"

definition sortBySecond :: "string \<times> int \<Rightarrow> string \<times> int \<Rightarrow> bool" where
  "sortBySecond left right = (snd left < snd right)"

text \<open>
  \<^verbatim>\<open>std::max_element(first, last, comp)\<close> keeps the first of the largest
  elements: \<^verbatim>\<open>largest\<close> moves only to an element that the comparison puts
  strictly above it. On an empty range it returns \<^verbatim>\<open>last\<close>, here \<open>None\<close>.
\<close>

fun max_element_from :: "('a \<Rightarrow> 'a \<Rightarrow> bool) \<Rightarrow> 'a \<Rightarrow> 'a list \<Rightarrow> 'a" where
  "max_element_from cmp largest [] = largest"
| "max_element_from cmp largest (x # xs) =
     max_element_from cmp (if cmp largest x then x else largest) xs"

definition max_element :: "('a \<Rightarrow> 'a \<Rightarrow> bool) \<Rightarrow> 'a list \<Rightarrow> 'a option" where
  "max_element cmp xs =
     (case xs of [] \<Rightarrow> None | x # xs' \<Rightarrow> Some (max_element_from cmp x xs'))"

section \<open>The known-filter and the corrector\<close>

text \<open>
  The global \<^verbatim>\<open>dictionary\<close> is the first argument of every function that
  reads it. The loops of \<^verbatim>\<open>known\<close> and of the second stage of
  \<^verbatim>\<open>correct\<close> visit \<^verbatim>\<open>results[0]\<close>, \<^verbatim>\<open>results[1]\<close>, ... in
  order, so they recurse on the list; their counter is an \<^verbatim>\<open>unsigned int\<close>,
  which is taken not to wrap (a vector of \<open>2 ^ 32\<close> strings is out of reach).
\<close>

fun known :: "string_map \<Rightarrow> string list \<Rightarrow> string_map \<Rightarrow> string_map" where
  "known dictionary [] candidates = candidates"
| "known dictionary (r # results) candidates =
     known dictionary results
       (case map_find dictionary r of
          None \<Rightarrow> candidates
        | Some val \<Rightarrow> map_assign (fst val) (snd val) candidates)"

fun second_edits :: "string_map \<Rightarrow> string list \<Rightarrow> string_map \<Rightarrow> error + string_map" where
  \<comment> \<open>the loop over \<^verbatim>\<open>result\<close> in \<^verbatim>\<open>correct\<close>, lines 107 to 113\<close>
  "second_edits dictionary [] candidates = Inr candidates"
| "second_edits dictionary (r # result) candidates =
     (case edits r [] of
        Inl e \<Rightarrow> Inl e
      | Inr subResult \<Rightarrow> second_edits dictionary result (known dictionary subResult candidates))"

definition best :: "string_map \<Rightarrow> error + string" where
  \<comment> \<open>\<^verbatim>\<open>max_element(candidates.begin(), candidates.end(), sortBySecond)->first\<close>\<close>
  "best candidates =
     (case max_element sortBySecond candidates of
        None \<Rightarrow> Inl UndefinedBehaviour
      | Some p \<Rightarrow> Inr (fst p))"

definition correct :: "string_map \<Rightarrow> string \<Rightarrow> error + string" where
  "correct dictionary word =
     (if map_find dictionary word \<noteq> None then Inr word
      else
        (case edits word [] of
           Inl e \<Rightarrow> Inl e
         | Inr result \<Rightarrow>
            (let candidates = known dictionary result [] in
             if length candidates > 0 then best candidates
             else
               (case second_edits dictionary result candidates of
                  Inl e \<Rightarrow> Inl e
                | Inr candidates' \<Rightarrow>
                    if length candidates' > 0 then best candidates' else Inr []))))"

text \<open>
  The entry point, without the marshalling of its arguments: \<^verbatim>\<open>word\<close> and the
  strings of the cell array \<^verbatim>\<open>c\<close>. It writes every string of \<^verbatim>\<open>c\<close> into
  the global dictionary with weight 1 and then corrects; the dictionary it leaves behind
  is the one the next call starts from.
\<close>

definition string_suggestion :: "string_map \<Rightarrow> string \<Rightarrow> string list \<Rightarrow> (error + string) \<times> string_map" where
  "string_suggestion dictionary word c =
     (let dictionary' = fold (\<lambda>s. map_assign s 1) c dictionary
      in (correct dictionary' word, dictionary'))"

section \<open>The tie-break as the specification words it\<close>

text \<open>
  The specification's tie-break: among the candidates found in the dictionary, in the
  order the generator produced them, the first one of maximal weight.
\<close>

definition spec_first_discovered :: "string_map \<Rightarrow> string list \<Rightarrow> string option" where
  "spec_first_discovered dictionary results =
     (let found = List.map_filter (map_find dictionary) results
      in map_option fst (List.find (\<lambda>p. list_all (\<lambda>q. snd q \<le> snd p) found) found))"

section \<open>What the edit generator returns\<close>

text \<open>
  A counting loop whose body appends to the results and does not throw returns the
  results followed by everything the body appended, position by position.
\<close>

lemma for_loop_concat:
  assumes "\<And>k rs. i \<le> k \<Longrightarrow> k < n \<Longrightarrow> body k rs = Inr (rs @ f k)"
  shows "for_loop i n body rs = Inr (rs @ concat (map f [i..<n]))"
  using assms
proof (induction i n body rs rule: for_loop.induct)
  case (1 i bound body s)
  show ?case
  proof (cases "i < bound")
    case True
    have step: "body i s = Inr (s @ f i)" using 1(2) True by simp
    have "for_loop (i + 1) bound body (s @ f i) = Inr ((s @ f i) @ concat (map f [i + 1..<bound]))"
      using 1(1) [OF True step] 1(2) by simp
    then show ?thesis
      using True step by (simp add: for_loop.simps [of i] upt_conv_Cons)
  next
    case False
    then show ?thesis by (simp add: for_loop.simps [of i])
  qed
qed

lemma for_loop_append:
  assumes "\<And>k rs. i \<le> k \<Longrightarrow> k < n \<Longrightarrow> body k rs = Inr (rs @ [g k])"
  shows "for_loop i n body rs = Inr (rs @ map g [i..<n])"
proof -
  have "concat (map (\<lambda>k. [g k]) [i..<n]) = map g [i..<n]"
    by (induction n) simp_all
  then show ?thesis
    using for_loop_concat [of i n body "\<lambda>k. [g k]" rs] assms by simp
qed

text \<open>Inside the bounds of their loops the four edit operations do not throw.\<close>

lemma deletion_ok:
  "i < length w \<Longrightarrow> deletion w i rs = Inr (rs @ [take i w @ drop (i + 1) w])"
  by (simp add: deletion_def substr_def substr_from_def)

lemma transposition_ok:
  "i + 1 < length w \<Longrightarrow>
   transposition w i rs = Inr (rs @ [take i w @ w ! (i + 1) # w ! i # drop (i + 2) w])"
  by (simp add: transposition_def substr_def substr_from_def at_def)

lemma alteration_ok:
  "i < length w \<Longrightarrow> alteration w j i rs = Inr (rs @ [take i w @ j # drop (i + 1) w])"
  by (simp add: alteration_def substr_def substr_from_def)

lemma insertion_ok:
  "i \<le> length w \<Longrightarrow> insertion w j i rs = Inr (rs @ [take i w @ j # drop i w])"
  by (simp add: insertion_def substr_def substr_from_def)

lemma letter_ok:
  "letter w j rs =
     Inr (rs @ (map (\<lambda>i. take i w @ char_of j # drop (i + 1) w) [0..<length w]
                 @ map (\<lambda>i. take i w @ char_of j # drop i w) [0..<length w + 1]))"
proof -
  have a: "for_loop 0 (length w) (alteration w (char_of j)) rs =
      Inr (rs @ map (\<lambda>i. take i w @ char_of j # drop (i + 1) w) [0..<length w])"
    by (rule for_loop_append) (simp add: alteration_ok)
  have b: "for_loop 0 (length w + 1) (insertion w (char_of j)) rs' =
      Inr (rs' @ map (\<lambda>i. take i w @ char_of j # drop i w) [0..<length w + 1])" for rs'
    by (rule for_loop_append) (simp add: insertion_ok)
  show ?thesis
    by (simp only: letter_def a b sum.case append_assoc)
qed

text \<open>
  For a word that is not empty, \<^verbatim>\<open>word.size() - 1\<close> does not wrap and the generator
  returns, in this order: the deletions, the transpositions, and for each letter from
  \<^verbatim>\<open>'a'\<close> (97) to \<^verbatim>\<open>'z'\<close> (122) the alterations followed by the insertions.
\<close>

lemma edits_nonempty:
  assumes "w \<noteq> []"
  shows "edits w rs =
     Inr (rs @ map (\<lambda>i. take i w @ drop (i + 1) w) [0..<length w]
             @ map (\<lambda>i. take i w @ w ! (i + 1) # w ! i # drop (i + 2) w) [0..<length w - 1]
             @ concat (map (\<lambda>j. map (\<lambda>i. take i w @ char_of j # drop (i + 1) w) [0..<length w]
                                  @ map (\<lambda>i. take i w @ char_of j # drop i w) [0..<length w + 1])
                    [97..<123]))"
proof -
  have n: "size_sub (length w) 1 = length w - 1"
    using assms by (simp add: size_sub_def Suc_leI)
  have a: "for_loop 0 (length w) (deletion w) rs =
      Inr (rs @ map (\<lambda>i. take i w @ drop (i + 1) w) [0..<length w])"
    by (rule for_loop_append) (simp add: deletion_ok)
  have b: "for_loop 0 (length w - 1) (transposition w) rs' =
      Inr (rs' @ map (\<lambda>i. take i w @ w ! (i + 1) # w ! i # drop (i + 2) w) [0..<length w - 1])" for rs'
    by (rule for_loop_append) (simp add: transposition_ok)
  have c: "for_loop 97 123 (letter w) rs' =
      Inr (rs' @ concat (map (\<lambda>j. map (\<lambda>i. take i w @ char_of j # drop (i + 1) w) [0..<length w]
                                  @ map (\<lambda>i. take i w @ char_of j # drop i w) [0..<length w + 1])
                    [97..<123]))" for rs'
    by (rule for_loop_concat) (simp add: letter_ok)
  have lo: "of_char CHR ''a'' = (97::nat)" and hi: "of_char CHR ''z'' + 1 = (123::nat)"
    by simp_all
  show ?thesis
    by (simp only: edits_def a n b c lo hi sum.case append_assoc)
qed

text \<open>
  For the empty word \<^verbatim>\<open>word.size() - 1\<close> wraps to \<open>2 ^ 64 - 1\<close>, the
  transposition loop is entered, and its first pass reads \<^verbatim>\<open>word[1]\<close> of a string
  of size 0.
\<close>

lemma edits_empty: "edits [] rs = Inl UndefinedBehaviour"
  by (simp add: edits_def for_loop.simps size_sub_def transposition_def substr_def at_def)

lemma edits_length:
  assumes "w \<noteq> []" and "edits w rs = Inr rs'"
  shows "length rs' = length rs + (2 * length w - 1) + 26 * (2 * length w + 1)"
proof -
  define A where "A = map (\<lambda>i. take i w @ drop (i + 1) w) [0..<length w]"
  define B where "B = map (\<lambda>i. take i w @ w ! (i + 1) # w ! i # drop (i + 2) w) [0..<length w - 1]"
  define F where "F = (\<lambda>j::nat. map (\<lambda>i. take i w @ char_of j # drop (i + 1) w) [0..<length w]
                                  @ map (\<lambda>i. take i w @ char_of j # drop i w) [0..<length w + 1])"
  have e: "edits w rs = Inr (rs @ A @ B @ concat (map F [97..<123]))"
    unfolding A_def B_def F_def by (rule edits_nonempty [OF assms(1)])
  have lA: "length A = length w" by (simp add: A_def)
  have lB: "length B = length w - 1" by (simp add: B_def)
  have lF: "length (F j) = 2 * length w + 1" for j by (simp add: F_def)
  have "sum_list (map (\<lambda>j. length (F j)) [97..<123]) = 26 * (2 * length w + 1)"
    by (simp only: lF sum_list_triv length_upt) simp
  then have lC: "length (concat (map F [97..<123])) = 26 * (2 * length w + 1)"
    by (simp only: length_concat map_map comp_def)
  have "rs' = rs @ A @ B @ concat (map F [97..<123])"
    using e assms(2) by simp
  then have "length rs' = length rs + (length w + ((length w - 1) + 26 * (2 * length w + 1)))"
    by (simp only: length_append lA lB lC)
  moreover have "0 < length w" using assms(1) by simp
  ultimately show ?thesis by arith
qed

section \<open>The empty word\<close>

text \<open>
  C2. The claim: for the empty word the generator produces no deletion, transposition or
  substitution and exactly the 26 insertions, the transposition loop produces nothing for
  every word shorter than two characters because its bound does not underflow, and the
  generator returns without error for every string.

  The code at the empty word: the bound \<^verbatim>\<open>word.size() - 1\<close> is \<open>2 ^ 64 - 1\<close>,
  the transposition loop runs, and the generator raises in its first pass instead of
  returning the 26 insertions. For a word of one character the bound is 0 and the loop
  produces nothing.
\<close>

theorem edits_empty_word_raises:
  "size_sub (length '''') 1 = 2 ^ 64 - 1
   \<and> size_sub (length ''a'') 1 = 0
   \<and> for_loop 0 (size_sub (length ''a'') 1) (transposition ''a'') [] = Inr []
   \<and> for_loop 0 (size_sub (length '''') 1) (transposition '''') [] = Inl UndefinedBehaviour
   \<and> edits '''' [] = Inl UndefinedBehaviour"
  by (simp add: edits_def for_loop.simps size_sub_def transposition_def substr_def at_def)

text \<open>
  C8. The claim: for every word the generator produces
  \<open>2 * len - 1 + 26 * (2 * len + 1)\<close> candidates, the transposition term clamped to
  zero below two characters, so 26 for the empty word and 187 for \<open>cat\<close>.

  The code at the empty word produces no candidate list at all: it raises. At
  \<open>cat\<close> it produces the 187 candidates; lemma \<open>edits_length\<close> above has the
  count for every word that is not empty.
\<close>

theorem edits_count_empty_word:
  "map_sum id length (edits '''' []) = Inl UndefinedBehaviour
   \<and> map_sum id length (edits ''cat'' []) = Inr 187"
proof -
  have e: "edits ''cat'' [] = Inr (projr (edits ''cat'' []))"
    by (simp add: edits_nonempty)
  have "length (projr (edits ''cat'' [])) = 187"
    using edits_length [OF _ e] by simp
  then have "map_sum id length (edits ''cat'' []) = Inr 187"
    by (subst e) simp
  then show ?thesis
    by (simp add: edits_empty)
qed

text \<open>
  C1. The claim: \<^verbatim>\<open>correct\<close> returns normally for every word and every vocabulary.

  The code raises whenever the generator is run on the empty word. That happens at once
  for the empty word when it is not a vocabulary key, and in the second stage for every
  word of one character that is no key and has no key among its single edits: the
  deletion of its only character is the empty word, the first entry of
  \<^verbatim>\<open>result\<close>.
\<close>

theorem correct_raises:
  "correct [(''hello'', 1)] '''' = Inl UndefinedBehaviour
   \<and> correct [(''hello'', 1)] ''x'' = Inl UndefinedBehaviour
   \<and> correct [] ''x'' = Inl UndefinedBehaviour"
  by (simp add: correct_def edits_def for_loop.simps size_sub_def transposition_def
      substr_def at_def deletion_def alteration_def insertion_def letter_def substr_from_def)

section \<open>The map operations\<close>

lemma map_find_Some: "map_find m k = Some p \<Longrightarrow> fst p = k \<and> p \<in> set m"
  by (induction m) (auto split: if_splits)

lemma map_find_None_iff: "map_find m k = None \<longleftrightarrow> k \<notin> fst ` set m"
  by (induction m) auto

lemma map_assign_member: "(k, v) \<in> set (map_assign k v m)"
  by (induction m) auto

lemma map_assign_other: "p \<in> set m \<Longrightarrow> fst p \<noteq> k \<Longrightarrow> p \<in> set (map_assign k v m)"
  by (induction m) auto

lemma map_assign_subset: "set (map_assign k v m) \<subseteq> insert (k, v) (set m)"
  by (induction m) auto

lemma map_assign_keys: "fst ` set (map_assign k v m) = insert k (fst ` set m)"
  by (induction m) auto

lemma map_assign_inv: "map_inv m \<Longrightarrow> map_inv (map_assign k v m)"
  unfolding map_inv_def
proof (induction m)
  case Nil
  then show ?case by simp
next
  case (Cons p m)
  have "\<forall>x \<in> fst ` set (map_assign k v m). fst p < x" if "fst p < k"
    using Cons.prems that by (auto simp: map_assign_keys)
  then show ?case
    using Cons by (auto simp: not_less less_le)
qed

text \<open>
  The known-filter: the candidate map stays sorted, every entry it writes is the
  dictionary's entry of a result, every result that is a key of the dictionary gets its
  entry, and an entry that is the dictionary's stays.
\<close>

lemma known_inv: "map_inv c \<Longrightarrow> map_inv (known d rs c)"
  by (induction rs arbitrary: c) (auto simp: map_assign_inv split: option.splits)

lemma known_keeps:
  "p \<in> set c \<Longrightarrow> map_find d (fst p) = Some p \<Longrightarrow> p \<in> set (known d rs c)"
proof (induction rs arbitrary: c)
  case Nil
  then show ?case by simp
next
  case (Cons r rs)
  show ?case
  proof (cases "map_find d r")
    case None
    then show ?thesis using Cons by simp
  next
    case (Some q)
    have "p \<in> set (map_assign (fst q) (snd q) c)"
    proof (cases "fst q = fst p")
      case True
      then have "q = p"
        by (metis Some Cons.prems(2) map_find_Some option.inject)
      then show ?thesis using map_assign_member [of "fst p" "snd p" c] by simp
    next
      case False
      then show ?thesis using Cons.prems(1) by (simp add: map_assign_other)
    qed
    then show ?thesis using Some Cons by simp
  qed
qed

lemma known_finds:
  "r \<in> set rs \<Longrightarrow> map_find d r = Some p \<Longrightarrow> p \<in> set (known d rs c)"
proof (induction rs arbitrary: c)
  case Nil
  then show ?case by simp
next
  case (Cons x rs)
  show ?case
  proof (cases "x = r")
    case True
    have "p \<in> set (map_assign (fst p) (snd p) c)"
      using map_assign_member [of "fst p" "snd p" c] by simp
    moreover have "map_find d (fst p) = Some p"
      using Cons.prems(2) map_find_Some [OF Cons.prems(2)] by simp
    ultimately show ?thesis
      using True Cons.prems(2) by (simp add: known_keeps)
  next
    case False
    then show ?thesis using Cons by simp
  qed
qed

lemma known_from:
  "p \<in> set (known d rs c) \<Longrightarrow> p \<in> set c \<or> (fst p \<in> set rs \<and> map_find d (fst p) = Some p)"
proof (induction rs arbitrary: c)
  case Nil
  then show ?case by simp
next
  case (Cons r rs)
  show ?case
  proof (cases "map_find d r")
    case None
    then show ?thesis using Cons by auto
  next
    case (Some q)
    then have "p \<in> set (map_assign (fst q) (snd q) c) \<or> (fst p \<in> set rs \<and> map_find d (fst p) = Some p)"
      using Cons by simp
    moreover have "fst q = r" using Some by (simp add: map_find_Some)
    ultimately show ?thesis
      using Some map_assign_subset [of "fst q" "snd q" c] by auto
  qed
qed

lemma known_empty_dictionary: "known [] rs c = c"
  by (induction rs arbitrary: c) simp_all

section \<open>The selection of the best candidate\<close>

text \<open>
  \<^verbatim>\<open>max_element\<close> with \<^verbatim>\<open>sortBySecond\<close> returns the first entry of
  maximal weight: every entry before it is strictly lighter, none after it is heavier.
\<close>

lemma max_element_from_split:
  "\<exists>ys zs. largest # xs = ys @ max_element_from sortBySecond largest xs # zs
     \<and> (\<forall>y \<in> set ys. snd y < snd (max_element_from sortBySecond largest xs))
     \<and> (\<forall>z \<in> set zs. snd z \<le> snd (max_element_from sortBySecond largest xs))"
proof (induction xs arbitrary: largest)
  case Nil
  show ?case by (rule exI [of _ "[]"], rule exI [of _ "[]"]) simp
next
  case (Cons x xs)
  show ?case
  proof (cases "snd largest < snd x")
    case True
    let ?r = "max_element_from sortBySecond x xs"
    have r: "max_element_from sortBySecond largest (x # xs) = ?r"
      using True by (simp add: sortBySecond_def)
    obtain ys zs where s: "x # xs = ys @ ?r # zs"
      and b: "\<forall>y \<in> set ys. snd y < snd ?r" and a: "\<forall>z \<in> set zs. snd z \<le> snd ?r"
      using Cons.IH [of x] by blast
    have "snd x \<le> snd ?r"
      using s b by (cases ys) auto
    then have "snd largest < snd ?r"
      using True by simp
    then show ?thesis
      unfolding r
      by (intro exI [of _ "largest # ys"] exI [of _ zs]) (use s a b in auto)
  next
    case False
    let ?r = "max_element_from sortBySecond largest xs"
    have r: "max_element_from sortBySecond largest (x # xs) = ?r"
      using False by (simp add: sortBySecond_def)
    obtain ys zs where s: "largest # xs = ys @ ?r # zs"
      and b: "\<forall>y \<in> set ys. snd y < snd ?r" and a: "\<forall>z \<in> set zs. snd z \<le> snd ?r"
      using Cons.IH [of largest] by blast
    show ?thesis
    proof (cases ys)
      case Nil
      have "largest = ?r" and "xs = zs"
        using s unfolding Nil append_Nil by blast+
      then have "largest # x # xs = [] @ ?r # (x # zs)" and "snd x \<le> snd ?r"
        using False by auto
      then show ?thesis
        unfolding r
        by (intro exI [of _ "[]"] exI [of _ "x # zs"]) (use a in auto)
    next
      case (Cons y ys')
      have y: "y = largest" and xs: "xs = ys' @ ?r # zs"
        using s unfolding Cons append_Cons by blast+
      have "snd largest < snd ?r"
        using b Cons y by simp
      then have "snd x < snd ?r"
        using False by simp
      then show ?thesis
        unfolding r
        by (intro exI [of _ "largest # x # ys'"] exI [of _ zs])
           (use xs a b Cons \<open>snd largest < snd ?r\<close> in auto)
    qed
  qed
qed

lemma best_first_maximal:
  assumes "c \<noteq> []"
  shows "\<exists>p. max_element sortBySecond c = Some p \<and> best c = Inr (fst p) \<and> p \<in> set c
           \<and> (\<forall>q \<in> set c. snd q \<le> snd p)
           \<and> (map_inv c \<longrightarrow> (\<forall>q \<in> set c. snd q = snd p \<longrightarrow> fst p \<le> fst q))"
proof -
  obtain x xs where c: "c = x # xs" using assms by (cases c) auto
  let ?p = "max_element_from sortBySecond x xs"
  obtain ys zs where s: "c = ys @ ?p # zs"
    and b: "\<forall>y \<in> set ys. snd y < snd ?p" and a: "\<forall>z \<in> set zs. snd z \<le> snd ?p"
    using max_element_from_split [of x xs] c by blast
  have m: "max_element sortBySecond c = Some ?p" and r: "best c = Inr (fst ?p)"
    by (simp_all add: c max_element_def best_def)
  have "?p \<in> set c" using s by simp
  moreover have "\<forall>q \<in> set c. snd q \<le> snd ?p"
    using s a b by (auto simp: less_imp_le)
  moreover have "\<forall>q \<in> set c. snd q = snd ?p \<longrightarrow> fst ?p \<le> fst q" if "map_inv c"
  proof (intro ballI impI)
    fix q assume q: "q \<in> set c" "snd q = snd ?p"
    have "sorted_wrt (<) (map fst ys @ fst ?p # map fst zs)"
      using that unfolding map_inv_def s by simp
    then have "\<forall>k \<in> set (map fst zs). fst ?p < k"
      by (simp add: sorted_wrt_append)
    moreover have "q = ?p \<or> q \<in> set zs"
      using q b s by auto
    ultimately show "fst ?p \<le> fst q" by auto
  qed
  ultimately show ?thesis using m r by blast
qed

section \<open>The three stages of the corrector\<close>

lemma correct_key: "map_find d w \<noteq> None \<Longrightarrow> correct d w = Inr w"
  by (simp add: correct_def)

lemma correct_first_stage:
  "map_find d w = None \<Longrightarrow> edits w [] = Inr rs \<Longrightarrow> known d rs [] \<noteq> [] \<Longrightarrow>
   correct d w = best (known d rs [])"
  by (simp add: correct_def)

lemma correct_second_stage:
  "map_find d w = None \<Longrightarrow> edits w [] = Inr rs \<Longrightarrow> known d rs [] = [] \<Longrightarrow>
   correct d w =
     (case second_edits d rs [] of
        Inl e \<Rightarrow> Inl e
      | Inr c \<Rightarrow> if c \<noteq> [] then best c else Inr [])"
  by (simp add: correct_def split: sum.splits)

lemma correct_empty_word: "map_find d [] = None \<Longrightarrow> correct d [] = Inl UndefinedBehaviour"
  by (simp add: correct_def edits_empty)

lemma second_edits_from:
  "second_edits d rs c = Inr c' \<Longrightarrow> p \<in> set c' \<Longrightarrow> p \<in> set c \<or> map_find d (fst p) = Some p"
proof (induction rs arbitrary: c)
  case Nil
  then show ?case by simp
next
  case (Cons r rs)
  then obtain sub where sub: "edits r [] = Inr sub"
    and rest: "second_edits d rs (known d sub c) = Inr c'"
    by (auto split: sum.splits)
  have "p \<in> set (known d sub c) \<or> map_find d (fst p) = Some p"
    using Cons.IH [OF rest Cons.prems(2)] .
  then show ?case
    using known_from [of p d sub c] by blast
qed

lemma second_edits_inv: "map_inv c \<Longrightarrow> second_edits d rs c = Inr c' \<Longrightarrow> map_inv c'"
proof (induction rs arbitrary: c)
  case Nil
  then show ?case by simp
next
  case (Cons r rs)
  then obtain sub where "second_edits d rs (known d sub c) = Inr c'"
    by (auto split: sum.splits)
  then show ?case
    using Cons.IH [of "known d sub c"] known_inv [OF Cons.prems(1)] by simp
qed

lemma edits_returns: "w \<noteq> [] \<Longrightarrow> \<exists>rs'. edits w rs = Inr rs'"
  by (rule exI, rule edits_nonempty)

lemma second_edits_returns:
  "\<forall>r \<in> set rs. r \<noteq> [] \<Longrightarrow> \<exists>c'. second_edits d rs c = Inr c'"
proof (induction rs arbitrary: c)
  case Nil
  then show ?case by simp
next
  case (Cons r rs)
  then obtain sub where "edits r [] = Inr sub"
    using edits_returns [of r "[]"] by auto
  then show ?case
    using Cons.IH [of "known d sub c"] Cons.prems by simp
qed

lemma second_edits_empty_dictionary:
  "\<forall>r \<in> set rs. r \<noteq> [] \<Longrightarrow> second_edits [] rs c = Inr c"
proof (induction rs arbitrary: c)
  case Nil
  then show ?case by simp
next
  case (Cons r rs)
  then obtain sub where "edits r [] = Inr sub"
    using edits_returns [of r "[]"] by auto
  then show ?case
    using Cons.IH [of c] Cons.prems by (simp add: known_empty_dictionary)
qed

lemma edits_words_nonempty:
  assumes "2 \<le> length w" and "edits w [] = Inr rs"
  shows "\<forall>r \<in> set rs. r \<noteq> []"
proof -
  define A where "A = map (\<lambda>i. take i w @ drop (i + 1) w) [0..<length w]"
  define B where "B = map (\<lambda>i. take i w @ w ! (i + 1) # w ! i # drop (i + 2) w) [0..<length w - 1]"
  define F where "F = (\<lambda>j::nat. map (\<lambda>i. take i w @ char_of j # drop (i + 1) w) [0..<length w]
                                  @ map (\<lambda>i. take i w @ char_of j # drop i w) [0..<length w + 1])"
  have "w \<noteq> []" using assms(1) by auto
  then have "edits w [] = Inr ([] @ A @ B @ concat (map F [97..<123]))"
    unfolding A_def B_def F_def by (rule edits_nonempty)
  then have e: "rs = A @ B @ concat (map F [97..<123])"
    using assms(2) by (simp only: sum.inject append_Nil)
  have "take i w @ drop (i + 1) w \<noteq> []" for i
    using assms(1) by (cases "i = 0") auto
  then have a: "\<forall>r \<in> set A. r \<noteq> []"
    by (auto simp: A_def)
  have b: "\<forall>r \<in> set B. r \<noteq> []"
    by (auto simp: B_def)
  have c: "\<forall>r \<in> set (concat (map F js)). r \<noteq> []" for js
    by (auto simp: F_def)
  show ?thesis
    using a b c [of "[97..<123]"] by (simp only: e set_append ball_Un)
qed

text \<open>A word of two or more characters never sends the empty word to the generator.\<close>

lemma correct_returns:
  assumes "2 \<le> length w"
  shows "\<exists>r. correct d w = Inr r"
proof (cases "map_find d w")
  case (Some p)
  then show ?thesis by (simp add: correct_key)
next
  case None
  have "w \<noteq> []" using assms by auto
  then obtain rs where rs: "edits w [] = Inr rs"
    using edits_returns [of w "[]"] by auto
  show ?thesis
  proof (cases "known d rs [] = []")
    case False
    then show ?thesis
      using correct_first_stage [OF None rs] best_first_maximal by metis
  next
    case True
    obtain c where c: "second_edits d rs [] = Inr c"
      using second_edits_returns [OF edits_words_nonempty [OF assms rs]] by blast
    show ?thesis
    proof (cases "c = []")
      case True
      then show ?thesis
        using correct_second_stage [OF None rs \<open>known d rs [] = []\<close>] c by simp
    next
      case False
      then show ?thesis
        using correct_second_stage [OF None rs True] c best_first_maximal [OF False] by auto
    qed
  qed
qed

lemma correct_empty_dictionary:
  assumes "2 \<le> length w"
  shows "correct [] w = Inr []"
proof -
  have "w \<noteq> []" using assms by auto
  then obtain rs where rs: "edits w [] = Inr rs"
    using edits_returns [of w "[]"] by auto
  have "second_edits [] rs [] = Inr []"
    using second_edits_empty_dictionary [OF edits_words_nonempty [OF assms rs]] .
  then show ?thesis
    using correct_second_stage [of "[]" w rs] rs by (simp add: known_empty_dictionary)
qed

section \<open>Words the generator cannot reach\<close>

text \<open>Every candidate is at most one character shorter than the word.\<close>

lemma edits_lengths:
  assumes "w \<noteq> []" and "edits w [] = Inr rs"
  shows "\<forall>r \<in> set rs. length w \<le> length r + 1"
proof -
  define A where "A = map (\<lambda>i. take i w @ drop (i + 1) w) [0..<length w]"
  define B where "B = map (\<lambda>i. take i w @ w ! (i + 1) # w ! i # drop (i + 2) w) [0..<length w - 1]"
  define F where "F = (\<lambda>j::nat. map (\<lambda>i. take i w @ char_of j # drop (i + 1) w) [0..<length w]
                                  @ map (\<lambda>i. take i w @ char_of j # drop i w) [0..<length w + 1])"
  have "edits w [] = Inr ([] @ A @ B @ concat (map F [97..<123]))"
    unfolding A_def B_def F_def using assms(1) by (rule edits_nonempty)
  then have e: "rs = A @ B @ concat (map F [97..<123])"
    using assms(2) by (simp only: sum.inject append_Nil)
  have a: "\<forall>r \<in> set A. length w \<le> length r + 1"
    by (auto simp: A_def)
  have b: "\<forall>r \<in> set B. length w \<le> length r + 1"
    by (auto simp: B_def)
  have c: "\<forall>r \<in> set (concat (map F js)). length w \<le> length r + 1" for js
    by (auto simp: F_def)
  show ?thesis
    using a b c [of "[97..<123]"] by (simp only: e set_append ball_Un)
qed

lemma known_nothing: "\<forall>r \<in> set rs. r \<notin> fst ` set d \<Longrightarrow> known d rs c = c"
  by (induction rs arbitrary: c) (simp_all add: map_find_None_iff [symmetric])

text \<open>
  When every key of the dictionary is more than two characters shorter than the word,
  neither stage finds a candidate and the corrector returns the empty string.
\<close>

lemma stages_far_keys:
  assumes "2 \<le> length w" and "\<forall>k \<in> fst ` set d. length k + 2 < length w"
    and "edits w [] = Inr rs"
  shows "known d rs [] = [] \<and> second_edits d rs [] = Inr []"
proof -
  have "w \<noteq> []" using assms(1) by auto
  have long: "\<forall>r \<in> set rs. length w \<le> length r + 1"
    using edits_lengths [OF \<open>w \<noteq> []\<close> assms(3)] .
  then have "\<forall>r \<in> set rs. r \<notin> fst ` set d"
    using assms(2) by fastforce
  then have first: "known d rs [] = []"
    by (rule known_nothing)
  have "second_edits d rs' c = Inr c" if "set rs' \<subseteq> set rs" for rs' c
    using that
  proof (induction rs' arbitrary: c)
    case Nil
    then show ?case by simp
  next
    case (Cons r rs')
    have r: "length w \<le> length r + 1" using Cons.prems long by simp
    then have "r \<noteq> []" using assms(1) by auto
    then obtain sub where sub: "edits r [] = Inr sub"
      using edits_returns [of r "[]"] by auto
    have "\<forall>x \<in> set sub. length r \<le> length x + 1"
      using edits_lengths [OF \<open>r \<noteq> []\<close> sub] .
    then have "\<forall>x \<in> set sub. x \<notin> fst ` set d"
      using assms(2) r by fastforce
    then have "known d sub c = c"
      by (rule known_nothing)
    then show ?case
      using sub Cons by simp
  qed
  then have "second_edits d rs [] = Inr []" by simp
  then show ?thesis using first by simp
qed

lemma correct_far_keys:
  assumes "2 \<le> length w" and "\<forall>k \<in> fst ` set d. length k + 2 < length w"
  shows "correct d w = Inr []"
proof -
  have "w \<noteq> []" using assms(1) by auto
  then obtain rs where rs: "edits w [] = Inr rs"
    using edits_returns [of w "[]"] by auto
  have w: "map_find d w = None"
    using assms(2) by (auto simp: map_find_None_iff)
  show ?thesis
    using correct_second_stage [OF w rs] stages_far_keys [OF assms rs] by simp
qed

text \<open>
  A word of one character has the empty word as its first candidate, so the second
  stage, when it is reached, raises at once.
\<close>

lemma correct_one_char_raises:
  assumes "length w = 1" and "w \<notin> fst ` set d" and "edits w [] = Inr rs"
    and "known d rs [] = []"
  shows "correct d w = Inl UndefinedBehaviour"
proof -
  have "w \<noteq> []" using assms(1) by auto
  have "[0..<length w] = [0]" using assms(1) by simp
  then have "map (\<lambda>i. take i w @ drop (i + 1) w) [0..<length w] = [[]]"
    using assms(1) by simp
  then have "\<exists>rest. edits w [] = Inr ([] # rest)"
    using edits_nonempty [OF \<open>w \<noteq> []\<close>, of "[]"] by (simp only: append_Nil append_Cons) blast
  then obtain rest where "rs = [] # rest"
    using assms(3) by auto
  then have "second_edits d rs [] = Inl UndefinedBehaviour"
    by (simp add: edits_empty)
  moreover have "map_find d w = None"
    using assms(2) by (simp add: map_find_None_iff)
  ultimately show ?thesis
    using correct_second_stage [OF _ assms(3,4)] by simp
qed

section \<open>The results of the corrector\<close>

text \<open>
  The vocabulary of the specification's example, and what the code computes for
  \<open>cit\<close> on it.
\<close>

lemma correct_cit: "correct [(''cat'', 5), (''cot'', 1)] ''cit'' = Inr ''cat''"
  by code_simp

text \<open>
  C3. For every word that is a key of the vocabulary, \<^verbatim>\<open>correct\<close> returns the word
  itself, whatever the weights of the other entries, and without running the edit
  generator: the statement has no side condition on the word, so it covers the empty
  word, on which the generator would raise.
\<close>

theorem correct_exact_match: "w \<in> fst ` set d \<Longrightarrow> correct d w = Inr w"
  by (simp add: correct_key map_find_None_iff)

theorem correct_exact_match_witness:
  "''cot'' \<in> fst ` set [(''cat'', 5), (''cot'', 1)]
   \<and> correct [(''cat'', 5), (''cot'', 1)] ''cot'' = Inr ''cot''
   \<and> correct [('''', 1), (''a'', 5)] '''' = Inr ''''"
  using correct_exact_match [of "''cot''" "[(''cat'', 5), (''cot'', 1)]"]
    correct_exact_match [of "''''" "[('''', 1), (''a'', 5)]"]
  by simp

text \<open>
  C9. Whatever \<^verbatim>\<open>correct\<close> returns is a key of the vocabulary or the empty
  string, and it is the word itself only when the word is a key.
\<close>

theorem correct_result_kinds:
  assumes "correct d w = Inr r"
  shows "(r \<in> fst ` set d \<or> r = []) \<and> (r = w \<longrightarrow> w \<in> fst ` set d)"
proof (cases "map_find d w")
  case (Some p)
  then have "correct d w = Inr w" and "w \<in> fst ` set d"
    using map_find_None_iff [of d w] by (simp_all add: correct_key)
  then show ?thesis using assms by simp
next
  case None
  then have w: "w \<notin> fst ` set d" by (simp add: map_find_None_iff)
  have "w \<noteq> []"
    using correct_empty_word assms None by fastforce
  then obtain rs where rs: "edits w [] = Inr rs"
    using edits_returns [of w "[]"] by auto
  have key: "fst p \<in> fst ` set d" if "map_find d (fst p) = Some p" for p
    using map_find_Some [OF that] by (metis imageI)
  have "r \<in> fst ` set d \<or> (r = [] \<and> r \<noteq> w)"
  proof (cases "known d rs [] = []")
    case False
    then obtain p where "best (known d rs []) = Inr (fst p)" and "p \<in> set (known d rs [])"
      using best_first_maximal [OF False] by blast
    then have "r = fst p" and "map_find d (fst p) = Some p"
      using correct_first_stage [OF None rs False] assms known_from [of p d rs "[]"] by simp_all
    then show ?thesis using key by simp
  next
    case True
    note stage = correct_second_stage [OF None rs True]
    show ?thesis
    proof (cases "second_edits d rs []")
      case (Inl e)
      then show ?thesis using stage assms by simp
    next
      case (Inr c)
      show ?thesis
      proof (cases "c = []")
        case True
        then show ?thesis using stage assms Inr \<open>w \<noteq> []\<close> by simp
      next
        case False
        then obtain p where "best c = Inr (fst p)" and "p \<in> set c"
          using best_first_maximal [OF False] by blast
        then have "r = fst p" and "map_find d (fst p) = Some p"
          using stage assms Inr False second_edits_from [OF Inr, of p] by simp_all
        then show ?thesis using key by simp
      qed
    qed
  qed
  then show ?thesis using w by auto
qed

theorem correct_result_kinds_witness:
  "correct [(''cat'', 5), (''cot'', 1)] ''cit'' = Inr ''cat''
   \<and> ''cat'' \<in> fst ` set [(''cat'', 5), (''cot'', 1)]
   \<and> ''cat'' \<noteq> ''cit''"
  using correct_result_kinds [OF correct_cit] correct_cit by simp

text \<open>
  For a word that is not empty the first stage does what the specification says: when
  the word is no key and some candidate of the generator is one, \<^verbatim>\<open>correct\<close>
  returns such a candidate, and no candidate that is a key has a greater stored weight.
\<close>

lemma first_stage_max_weight:
  assumes "w \<notin> fst ` set d" and "edits w [] = Inr rs" and "c \<in> set rs" and "c \<in> fst ` set d"
  shows "\<exists>r v. correct d w = Inr r \<and> r \<in> set rs \<and> map_find d r = Some (r, v)
         \<and> (\<forall>c' \<in> set rs. \<forall>u. map_find d c' = Some (c', u) \<longrightarrow> u \<le> v)"
proof -
  have none: "map_find d w = None"
    using assms(1) by (simp add: map_find_None_iff)
  obtain q where q: "map_find d c = Some q"
    using assms(4) map_find_None_iff [of d c] by auto
  then have "q \<in> set (known d rs [])"
    using assms(3) known_finds by blast
  then have ne: "known d rs [] \<noteq> []" by auto
  obtain p where r: "best (known d rs []) = Inr (fst p)" and p: "p \<in> set (known d rs [])"
    and m: "\<forall>q \<in> set (known d rs []). snd q \<le> snd p"
    using best_first_maximal [OF ne] by blast
  have found: "fst p \<in> set rs" "map_find d (fst p) = Some p"
    using known_from [OF p] by simp_all
  have "u \<le> snd p" if "c' \<in> set rs" and "map_find d c' = Some (c', u)" for c' u
    using known_finds [OF that, of "[]"] m by auto
  then show ?thesis
    using correct_first_stage [OF none assms(2) ne] r found
    by (intro exI [of _ "fst p"] exI [of _ "snd p"]) auto
qed

text \<open>
  C6. The claim: when the word is no key of the vocabulary and at least one string at
  one edit from it is a key, \<^verbatim>\<open>correct\<close> returns such a key of maximal stored
  weight; on the vocabulary \<open>cat\<close> (5), \<open>cot\<close> (1) the word \<open>cit\<close> is
  corrected to \<open>cat\<close>.

  The code at the empty word and the vocabulary with the only key \<open>a\<close>: the word is
  no key, the insertion of \<open>a\<close> at position 0 is the key \<open>a\<close>, and
  \<^verbatim>\<open>correct\<close> raises instead of returning it, because the generator fails in the
  transposition loop before it reaches the insertions. The example of the claim holds,
  and lemma \<open>first_stage_max_weight\<close> above has the claim for every word that is not
  empty.
\<close>

theorem correct_distance1_empty_word_raises:
  "map_find [(''a'', 1)] '''' = None
   \<and> for_loop 0 (length '''' + 1) (insertion '''' CHR ''a'') [] = Inr [''a'']
   \<and> map_find [(''a'', 1)] ''a'' = Some (''a'', 1)
   \<and> correct [(''a'', 1)] '''' = Inl UndefinedBehaviour
   \<and> correct [(''cat'', 5), (''cot'', 1)] ''cit'' = Inr ''cat''"
proof -
  have "for_loop 0 (length '''' + 1) (insertion '''' CHR ''a'') [] = Inr [''a'']"
    by (simp add: for_loop.simps insertion_def substr_def substr_from_def)
  moreover have "correct [(''a'', 1)] '''' = Inl UndefinedBehaviour"
    by (rule correct_empty_word) simp
  ultimately show ?thesis
    using correct_cit by simp
qed

lemma edits_a: "edits ''a'' [] = Inr (projr (edits ''a'' []))"
  using edits_returns [of "''a''" "[]"] by auto

lemma edits_abc: "edits ''abc'' [] = Inr (projr (edits ''abc'' []))"
  using edits_returns [of "''abc''" "[]"] by auto

text \<open>
  C10. The empty string is returned both as a correction and as the sign that there is
  none. For the word \<open>a\<close> and the vocabulary whose only key is the empty string:
  the generator returns, its first candidate, the deletion of the only character, is the
  empty string, the known-filter finds that key among the candidates, and
  \<^verbatim>\<open>correct\<close> returns the first stage's selection, the empty string. (With the
  only key \<open>b\<close> the same stage returns \<open>b\<close>.) For the word \<open>abc\<close> on the
  same vocabulary neither stage finds a key, and \<^verbatim>\<open>correct\<close> returns the empty
  string again.
\<close>

theorem empty_string_is_a_correction:
  "edits ''a'' [] = Inr (projr (edits ''a'' []))
   \<and> take 1 (projr (edits ''a'' [])) = ['''']
   \<and> map_find [('''', 1)] ''a'' = None
   \<and> map_find [('''', 1)] '''' = Some ('''', 1)
   \<and> known [('''', 1)] (projr (edits ''a'' [])) [] = [('''', 1)]
   \<and> correct [('''', 1)] ''a'' = best (known [('''', 1)] (projr (edits ''a'' [])) [])
   \<and> correct [('''', 1)] ''a'' = Inr ''''
   \<and> correct [(''b'', 1)] ''a'' = Inr ''b''
   \<and> edits ''abc'' [] = Inr (projr (edits ''abc'' []))
   \<and> known [('''', 1)] (projr (edits ''abc'' [])) [] = []
   \<and> second_edits [('''', 1)] (projr (edits ''abc'' [])) [] = Inr []
   \<and> correct [('''', 1)] ''abc'' = Inr ''''"
proof -
  have d: "take 1 (projr (edits ''a'' [])) = ['''']"
    by code_simp
  have k: "known [('''', 1)] (projr (edits ''a'' [])) [] = [('''', 1)]"
    by code_simp
  have n: "map_find [('''', 1)] ''a'' = None"
    by simp
  have s: "correct [('''', 1)] ''a'' = best (known [('''', 1)] (projr (edits ''a'' [])) [])"
    by (rule correct_first_stage [OF n edits_a]) (simp add: k)
  have r: "correct [('''', 1)] ''a'' = Inr ''''"
    unfolding s k by (simp add: best_def max_element_def)
  have b: "correct [(''b'', 1)] ''a'' = Inr ''b''"
    by code_simp
  have far: "known [('''', 1)] (projr (edits ''abc'' [])) [] = []
      \<and> second_edits [('''', 1)] (projr (edits ''abc'' [])) [] = Inr []"
    by (rule stages_far_keys [OF _ _ edits_abc]) simp_all
  have f: "correct [('''', 1)] ''abc'' = Inr ''''"
    by (rule correct_far_keys) simp_all
  show ?thesis
    using edits_a d n k s r b edits_abc far f by simp
qed

section \<open>The dictionary across calls\<close>

text \<open>
  A call adds the terms it is given to the keys the dictionary already has, and removes
  none.
\<close>

lemma fold_map_assign_keys:
  "fst ` set (fold (\<lambda>s. map_assign s 1) c d) = fst ` set d \<union> set c"
  by (induction c arbitrary: d) (auto simp: map_assign_keys)

lemma string_suggestion_keys:
  "fst ` set (snd (string_suggestion d w c)) = fst ` set d \<union> set c"
  by (simp add: string_suggestion_def Let_def fold_map_assign_keys)

text \<open>
  C7. The claim: the dictionary used for a correction holds exactly the terms of that
  call, and nothing of an earlier call remains.

  The code never clears the global dictionary. After a first call with the terms
  \<open>hello\<close>, a second call with the only term \<open>zebra\<close> corrects \<open>helo\<close>
  on a dictionary of both terms, and returns \<open>hello\<close>, which is not among the terms
  it was given.
\<close>

theorem dictionary_keeps_earlier_terms:
  "string_suggestion [] ''hello'' [''hello''] = (Inr ''hello'', [(''hello'', 1)])
   \<and> string_suggestion [(''hello'', 1)] ''helo'' [''zebra'']
       = (Inr ''hello'', [(''hello'', 1), (''zebra'', 1)])"
  by code_simp

section \<open>The two stages and the tie-break\<close>

lemma second_edits_keeps:
  "second_edits d rs c = Inr c' \<Longrightarrow> p \<in> set c \<Longrightarrow> map_find d (fst p) = Some p \<Longrightarrow> p \<in> set c'"
proof (induction rs arbitrary: c)
  case Nil
  then show ?case by simp
next
  case (Cons r rs)
  then obtain sub where rest: "second_edits d rs (known d sub c) = Inr c'"
    by (auto split: sum.splits)
  show ?case
    using Cons.IH [OF rest known_keeps [OF Cons.prems(2,3)] Cons.prems(3)] .
qed

lemma second_edits_finds:
  assumes "second_edits d rs c = Inr c'" and "r \<in> set rs" and "edits r [] = Inr sub"
    and "x \<in> set sub" and "map_find d x = Some p"
  shows "p \<in> set c'"
  using assms(1,2)
proof (induction rs arbitrary: c)
  case Nil
  then show ?case by simp
next
  case (Cons y rs)
  then obtain sub' where sub': "edits y [] = Inr sub'"
    and rest: "second_edits d rs (known d sub' c) = Inr c'"
    by (auto split: sum.splits)
  show ?case
  proof (cases "y = r")
    case True
    then have "p \<in> set (known d sub' c)"
      using sub' assms(3,4,5) known_finds by auto
    moreover have "map_find d (fst p) = Some p"
      using assms(5) map_find_Some [OF assms(5)] by simp
    ultimately show ?thesis
      using second_edits_keeps [OF rest] by blast
  next
    case False
    then show ?thesis using Cons.IH [OF rest] Cons.prems(2) by simp
  qed
qed

text \<open>
  C4. The claim: some word and vocabulary exist for which a candidate found in the first
  stage, but not selected there, is returned by the second stage.

  The code returns from the first stage whenever its candidate map is not empty, so the
  second stage starts from an empty map and no candidate of the first stage is ever left
  for it: no such word and vocabulary exist.
\<close>

theorem first_stage_loser_never_returned:
  "\<not> (\<exists>d w rs c. w \<notin> fst ` set d \<and> edits w [] = Inr rs
         \<and> c \<in> fst ` set (known d rs [])
         \<and> map_option fst (max_element sortBySecond (known d rs [])) \<noteq> Some c
         \<and> correct d w = Inr c)"
proof
  assume "\<exists>d w rs c. w \<notin> fst ` set d \<and> edits w [] = Inr rs
         \<and> c \<in> fst ` set (known d rs [])
         \<and> map_option fst (max_element sortBySecond (known d rs [])) \<noteq> Some c
         \<and> correct d w = Inr c"
  then obtain d w rs c where nokey: "w \<notin> fst ` set d" and rs: "edits w [] = Inr rs"
    and c: "c \<in> fst ` set (known d rs [])"
    and lost: "map_option fst (max_element sortBySecond (known d rs [])) \<noteq> Some c"
    and ret: "correct d w = Inr c"
    by blast
  have w: "map_find d w = None" using nokey by (simp add: map_find_None_iff)
  have ne: "known d rs [] \<noteq> []" using c by auto
  obtain p where "max_element sortBySecond (known d rs []) = Some p"
    and "best (known d rs []) = Inr (fst p)"
    using best_first_maximal [OF ne] by blast
  then show False
    using correct_first_stage [OF w rs ne] lost ret by simp
qed

text \<open>
  C4 as the code has it: when the first stage finds any candidate, \<^verbatim>\<open>correct\<close>
  returns the entry \<^verbatim>\<open>max_element\<close> selects among the candidates of the first
  stage; when it finds none, the result is that of the second stage run on the empty
  candidate map.
\<close>

theorem second_stage_starts_empty:
  assumes "w \<notin> fst ` set d" and "edits w [] = Inr rs"
  shows "(known d rs [] \<noteq> [] \<longrightarrow>
            (\<exists>p. max_element sortBySecond (known d rs []) = Some p \<and> correct d w = Inr (fst p)))
       \<and> (known d rs [] = [] \<longrightarrow>
            correct d w =
              (case second_edits d rs [] of
                 Inl e \<Rightarrow> Inl e
               | Inr c \<Rightarrow> if c \<noteq> [] then best c else Inr []))"
proof (intro conjI impI)
  have w: "map_find d w = None" using assms(1) by (simp add: map_find_None_iff)
  {
    assume ne: "known d rs [] \<noteq> []"
    then obtain p where "max_element sortBySecond (known d rs []) = Some p"
      and "best (known d rs []) = Inr (fst p)"
      using best_first_maximal [OF ne] by blast
    then show "\<exists>p. max_element sortBySecond (known d rs []) = Some p \<and> correct d w = Inr (fst p)"
      using correct_first_stage [OF w assms(2) ne] by simp
  next
    assume "known d rs [] = []"
    then show "correct d w =
        (case second_edits d rs [] of
           Inl e \<Rightarrow> Inl e
         | Inr c \<Rightarrow> if c \<noteq> [] then best c else Inr [])"
      by (rule correct_second_stage [OF w assms(2)])
  }
qed

text \<open>
  Two runs on the word \<open>ab\<close>: with the keys \<open>a\<close> and \<open>b\<close> the first
  stage finds both; with the keys \<open>abcd\<close> and \<open>abce\<close> the first stage finds
  nothing and the second stage finds both, through the candidate \<open>abc\<close>.
\<close>

lemma edits_ab: "edits ''ab'' [] = Inr (projr (edits ''ab'' []))"
  using edits_returns [of "''ab''" "[]"] by auto

lemma known_ab_first_stage:
  "known [(''a'', 1), (''b'', 1)] (projr (edits ''ab'' [])) [] = [(''a'', 1), (''b'', 1)]"
  by code_simp

lemma known_ab_nothing:
  "known [(''abcd'', 1), (''abce'', 1)] (projr (edits ''ab'' [])) [] = []"
  by code_simp

lemma abc_of_ab: "''abc'' \<in> set (projr (edits ''ab'' []))"
  by code_simp

lemma abcd_of_abc:
  "''abcd'' \<in> set (projr (edits ''abc'' []))" "''abce'' \<in> set (projr (edits ''abc'' []))"
  by code_simp+

lemma second_stage_ab:
  obtains c where "second_edits [(''abcd'', 1), (''abce'', 1)] (projr (edits ''ab'' [])) [] = Inr c"
    and "set c = {(''abcd'', 1), (''abce'', 1)}"
proof -
  let ?d = "[(''abcd'', 1 :: int), (''abce'', 1)]"
  have "\<forall>r \<in> set (projr (edits ''ab'' [])). r \<noteq> []"
    by (rule edits_words_nonempty [OF _ edits_ab]) simp
  then obtain c where c: "second_edits ?d (projr (edits ''ab'' [])) [] = Inr c"
    using second_edits_returns by blast
  have "(''abcd'', 1) \<in> set c" "(''abce'', 1) \<in> set c"
    using second_edits_finds [OF c abc_of_ab edits_abc abcd_of_abc(1), of "(''abcd'', 1)"]
      second_edits_finds [OF c abc_of_ab edits_abc abcd_of_abc(2), of "(''abce'', 1)"]
    by simp_all
  moreover have "p \<in> set ?d" if "p \<in> set c" for p
    using second_edits_from [OF c that] map_find_Some [of ?d "fst p" p] by auto
  ultimately have "set c = {(''abcd'', 1), (''abce'', 1)}"
    by auto
  then show ?thesis using c that by blast
qed

theorem second_stage_starts_empty_witness:
  "''ab'' \<notin> fst ` set [(''a'', 1), (''b'', 1)]
   \<and> edits ''ab'' [] = Inr (projr (edits ''ab'' []))
   \<and> known [(''a'', 1), (''b'', 1)] (projr (edits ''ab'' [])) [] \<noteq> []
   \<and> correct [(''a'', 1), (''b'', 1)] ''ab'' = Inr ''a''
   \<and> ''ab'' \<notin> fst ` set [(''abcd'', 1), (''abce'', 1)]
   \<and> known [(''abcd'', 1), (''abce'', 1)] (projr (edits ''ab'' [])) [] = []
   \<and> correct [(''abcd'', 1), (''abce'', 1)] ''ab'' =
       (case second_edits [(''abcd'', 1), (''abce'', 1)] (projr (edits ''ab'' [])) [] of
          Inl e \<Rightarrow> Inl e
        | Inr c \<Rightarrow> if c \<noteq> [] then best c else Inr [])"
proof -
  have k: "''ab'' \<notin> fst ` set [(''a'', 1 :: int), (''b'', 1)]"
    "''ab'' \<notin> fst ` set [(''abcd'', 1 :: int), (''abce'', 1)]"
    by simp_all
  have "max_element sortBySecond [(''a'', 1 :: int), (''b'', 1)] = Some (''a'', 1)"
    by (simp add: max_element_def sortBySecond_def)
  then have "correct [(''a'', 1), (''b'', 1)] ''ab'' = Inr ''a''"
    using second_stage_starts_empty [OF k(1) edits_ab] by (simp add: known_ab_first_stage)
  moreover have "correct [(''abcd'', 1), (''abce'', 1)] ''ab'' =
       (case second_edits [(''abcd'', 1), (''abce'', 1)] (projr (edits ''ab'' [])) [] of
          Inl e \<Rightarrow> Inl e
        | Inr c \<Rightarrow> if c \<noteq> [] then best c else Inr [])"
    using second_stage_starts_empty [OF k(2) edits_ab] known_ab_nothing by simp
  ultimately show ?thesis
    using k edits_ab known_ab_first_stage known_ab_nothing by simp
qed

text \<open>
  C5. The claim: among candidates that share the maximal weight, \<^verbatim>\<open>correct\<close>
  returns the one the generator produced first.

  The code selects with \<^verbatim>\<open>max_element\<close> over the candidate map, which is
  iterated by ascending key. For the word \<open>ab\<close> and the keys \<open>a\<close> and
  \<open>b\<close> of weight 1, the generator produces \<open>b\<close> first (the deletion at
  position 0), and \<^verbatim>\<open>correct\<close> returns \<open>a\<close>.
\<close>

theorem tie_break_not_generation_order:
  "map_sum id (spec_first_discovered [(''a'', 1), (''b'', 1)]) (edits ''ab'' []) = Inr (Some ''b'')
   \<and> correct [(''a'', 1), (''b'', 1)] ''ab'' = Inr ''a''"
  by code_simp

text \<open>
  C5 as the code has it: let \<open>c\<close> be the candidate map the selection is made on,
  that of the first stage when it is not empty and otherwise that of the second stage.
  Then \<^verbatim>\<open>correct\<close> returns the key of an entry of \<open>c\<close> of maximal weight,
  and among the entries of that weight the one with the least key.
\<close>

theorem tie_break_key_order:
  assumes "w \<notin> fst ` set d" and "edits w [] = Inr rs"
    and "c = known d rs [] \<or> (known d rs [] = [] \<and> second_edits d rs [] = Inr c)"
    and "c \<noteq> []"
  shows "\<exists>p \<in> set c. correct d w = Inr (fst p)
           \<and> (\<forall>q \<in> set c. snd q \<le> snd p \<and> (snd q = snd p \<longrightarrow> fst p \<le> fst q))"
proof -
  have w: "map_find d w = None" using assms(1) by (simp add: map_find_None_iff)
  have "map_inv []" by (simp add: map_inv_def)
  then have inv: "map_inv c"
    using assms(3) known_inv second_edits_inv by blast
  have "correct d w = best c"
  proof (cases "known d rs [] = []")
    case True
    then show ?thesis
      using assms(3,4) correct_second_stage [OF w assms(2) True] by auto
  next
    case False
    then show ?thesis
      using assms(3) correct_first_stage [OF w assms(2) False] by simp
  qed
  then show ?thesis
    using best_first_maximal [OF assms(4)] inv by (metis (no_types, lifting))
qed

theorem tie_break_key_order_witness:
  "correct [(''a'', 1), (''b'', 1)] ''ab'' = Inr ''a''
   \<and> correct [(''abcd'', 1), (''abce'', 1)] ''ab'' = Inr ''abcd''"
proof -
  have k: "''ab'' \<notin> fst ` set [(''a'', 1 :: int), (''b'', 1)]"
    "''ab'' \<notin> fst ` set [(''abcd'', 1 :: int), (''abce'', 1)]"
    by simp_all
  have "\<exists>p \<in> set [(''a'', 1 :: int), (''b'', 1)]. correct [(''a'', 1), (''b'', 1)] ''ab'' = Inr (fst p)
           \<and> (\<forall>q \<in> set [(''a'', 1 :: int), (''b'', 1)]. snd q \<le> snd p \<and> (snd q = snd p \<longrightarrow> fst p \<le> fst q))"
    using tie_break_key_order [OF k(1) edits_ab, of "[(''a'', 1), (''b'', 1)]"]
    by (simp add: known_ab_first_stage)
  then have first: "correct [(''a'', 1), (''b'', 1)] ''ab'' = Inr ''a''"
    by auto
  obtain c where c: "second_edits [(''abcd'', 1), (''abce'', 1)] (projr (edits ''ab'' [])) [] = Inr c"
    and s: "set c = {(''abcd'', 1), (''abce'', 1)}"
    by (rule second_stage_ab)
  have "c \<noteq> []" using s by auto
  then have "\<exists>p \<in> set c. correct [(''abcd'', 1), (''abce'', 1)] ''ab'' = Inr (fst p)
           \<and> (\<forall>q \<in> set c. snd q \<le> snd p \<and> (snd q = snd p \<longrightarrow> fst p \<le> fst q))"
    using tie_break_key_order [OF k(2) edits_ab, of c] known_ab_nothing c by simp
  then have "correct [(''abcd'', 1), (''abce'', 1)] ''ab'' = Inr ''abcd''"
    unfolding s by auto
  then show ?thesis using first by simp
qed

end
